theory Spec2Isabelle
  imports Main "HOL-Library.Word"
begin

section \<open>The Regenbox firmware (firmware.ino) as HOL functions\<close>

text \<open>
  The firmware is one Arduino sketch: global state (the voltage history, its counter),
  three digital output lines, four analog inputs and a serial link. Every function of the
  sketch becomes a function on an explicit \<open>state\<close>; the hardware the sketch talks to
  (the analog converter, the value an uninitialised local happens to hold) is an \<open>env\<close>
  parameter that is never changed.

  \<^item> \<open>unsigned long\<close> is a 32-bit word (\<open>+\<close>, \<open>*\<close> wrap, \<open>div\<close> truncates);
    \<open>byte\<close>/\<open>uint8_t\<close> values that come from outside (opcodes, channel arguments) are
    8-bit words. The \<open>byte\<close> loop counters only ever count up to 10 or 204 and are
    natural numbers.
  \<^item> Control that falls off the end of \<open>getAnalog\<close> (no \<open>return\<close> for a channel
    outside 0..3) is undefined behaviour: the result \<open>None\<close>, which every caller passes on.
\<close>

type_synonym u8 = "8 word"
type_synonym u32 = "32 word"

subsection \<open>Constants (the sketch's macros)\<close>

definition READ_A0 :: u8 where "READ_A0 = 0x00"
definition READ_V :: u8 where "READ_V = 0x01"
definition LED_TOGGLE :: u8 where "LED_TOGGLE = 0x12"
definition LED_0 :: u8 where "LED_0 = 0x10"
definition LED_1 :: u8 where "LED_1 = 0x11"
definition PIN_DISCHARGE_0 :: u8 where "PIN_DISCHARGE_0 = 0x30"
definition PIN_DISCHARGE_1 :: u8 where "PIN_DISCHARGE_1 = 0x31"
definition PIN_CHARGE_0 :: u8 where "PIN_CHARGE_0 = 0x40"
definition PIN_CHARGE_1 :: u8 where "PIN_CHARGE_1 = 0x41"
definition MODE_IDLE :: u8 where "MODE_IDLE = 0x50"
definition MODE_CHARGE :: u8 where "MODE_CHARGE = 0x51"
definition MODE_DISCHARGE :: u8 where "MODE_DISCHARGE = 0x52"
definition READ_A1 :: u8 where "READ_A1 = 0x62"
definition READ_V1 :: u8 where "READ_V1 = 0x63"
definition READ_A2 :: u8 where "READ_A2 = 0x64"
definition READ_V2 :: u8 where "READ_V2 = 0x65"
definition READ_A3 :: u8 where "READ_A3 = 0x66"
definition READ_V3 :: u8 where "READ_V3 = 0x67"
definition PING :: u8 where "PING = 0xA0"
definition STOP_BYTE :: u8 where "STOP_BYTE = 0xff"

definition PIN_CHARGE :: nat where "PIN_CHARGE = 4"
definition PIN_DISCHARGE :: nat where "PIN_DISCHARGE = 3"
definition PIN_LED :: nat where "PIN_LED = 13"

definition CAN_REF :: u32 where "CAN_REF = 2410"
definition CAN_BITSIZE :: u32 where "CAN_BITSIZE = 1023"
definition NB_ANALOG_RD :: nat where "NB_ANALOG_RD = 204"
definition VOLTAGE_HISTORY_NUM :: nat where "VOLTAGE_HISTORY_NUM = 10"
definition CHARGE_THRESHOLD :: u32 where "CHARGE_THRESHOLD = 1500"

lemmas opcode_defs =
  READ_A0_def READ_V_def LED_TOGGLE_def LED_0_def LED_1_def PIN_DISCHARGE_0_def
  PIN_DISCHARGE_1_def PIN_CHARGE_0_def PIN_CHARGE_1_def MODE_IDLE_def MODE_CHARGE_def
  MODE_DISCHARGE_def READ_A1_def READ_V1_def READ_A2_def READ_V2_def READ_A3_def
  READ_V3_def PING_def STOP_BYTE_def

lemmas pin_defs = PIN_CHARGE_def PIN_DISCHARGE_def PIN_LED_def

lemmas config_defs =
  CAN_REF_def CAN_BITSIZE_def NB_ANALOG_RD_def VOLTAGE_HISTORY_NUM_def CHARGE_THRESHOLD_def

subsection \<open>State and environment\<close>

datatype analog_pin = A0 | A1 | A2 | A3

text \<open>
  The environment: \<open>adc a n\<close> is the \<open>int\<close> that the \<open>n\<close>-th call of \<open>analogRead\<close>
  since power-up returns when it is made on analog input \<open>a\<close>; \<open>indeterminate n\<close> is
  the value the uninitialised local \<open>sum\<close> of \<open>getVoltage\<close> holds when the function
  is entered after \<open>n\<close> analog reads.
\<close>

record env =
  adc :: "analog_pin \<Rightarrow> nat \<Rightarrow> int"
  indeterminate :: "nat \<Rightarrow> u32"

text \<open>
  The state: the two globals of the sketch, the level of every digital pin with the log
  of all \<open>digitalWrite\<close> calls in order, the serial link (bytes waiting to be read, bytes
  written so far), the number of analog reads made and the time spent in \<open>delay\<close>.
\<close>

record state =
  gVoltageHist :: "nat \<Rightarrow> nat \<Rightarrow> u32"
  gHistCounter :: u32
  pin_level :: "nat \<Rightarrow> bool"
  pin_writes :: "(nat \<times> bool) list"
  serial_rx :: "u8 list"
  serial_tx :: "u8 list"
  analog_reads :: nat
  elapsed :: nat

subsection \<open>The hardware and library calls\<close>

definition digitalWrite :: "nat \<Rightarrow> bool \<Rightarrow> state \<Rightarrow> state" where
  "digitalWrite pin v s =
     s\<lparr>pin_level := (pin_level s)(pin := v), pin_writes := pin_writes s @ [(pin, v)]\<rparr>"

definition digitalRead :: "nat \<Rightarrow> state \<Rightarrow> bool" where
  "digitalRead pin s = pin_level s pin"

definition analogRead :: "env \<Rightarrow> analog_pin \<Rightarrow> state \<Rightarrow> int \<times> state" where
  "analogRead e a s = (adc e a (analog_reads s), s\<lparr>analog_reads := analog_reads s + 1\<rparr>)"

definition delay :: "nat \<Rightarrow> state \<Rightarrow> state" where
  "delay ms s = s\<lparr>elapsed := elapsed s + ms\<rparr>"

definition Serial_available :: "state \<Rightarrow> bool" where
  "Serial_available s = (serial_rx s \<noteq> [])"

definition Serial_read :: "state \<Rightarrow> u8 \<times> state" where
  "Serial_read s = (hd (serial_rx s), s\<lparr>serial_rx := tl (serial_rx s)\<rparr>)"

definition Serial_write :: "u8 \<Rightarrow> state \<Rightarrow> state" where
  "Serial_write b s = s\<lparr>serial_tx := serial_tx s @ [b]\<rparr>"

text \<open>\<open>Serial.print\<close> of an unsigned number: its decimal digits in ASCII, no leading zero.\<close>

fun decimal :: "nat \<Rightarrow> u8 list" where
  "decimal n = (if n < 10 then [of_nat (48 + n)] else decimal (n div 10) @ [of_nat (48 + n mod 10)])"

declare decimal.simps [simp del]

definition Serial_print :: "u32 \<Rightarrow> state \<Rightarrow> state" where
  "Serial_print v s = s\<lparr>serial_tx := serial_tx s @ decimal (unat v)\<rparr>"

subsection \<open>The voltage history\<close>

function init_inner :: "nat \<Rightarrow> nat \<Rightarrow> state \<Rightarrow> state" where
  "init_inner j i s =
     (if i < VOLTAGE_HISTORY_NUM
      then init_inner j (i + 1)
             (s\<lparr>gVoltageHist := (gVoltageHist s)(j := (gVoltageHist s j)(i := CHARGE_THRESHOLD))\<rparr>)
      else s)"
  by pat_completeness auto
termination
  by (relation "measure (\<lambda>(j, i, s). VOLTAGE_HISTORY_NUM - i)") auto

declare init_inner.simps [simp del]

function init_outer :: "nat \<Rightarrow> state \<Rightarrow> state" where
  "init_outer j s = (if j < 4 then init_outer (j + 1) (init_inner j 0 s) else s)"
  by pat_completeness auto
termination
  by (relation "measure (\<lambda>(j, s). 4 - j)") auto

declare init_outer.simps [simp del]

definition initVoltageHist :: "state \<Rightarrow> state" where
  "initVoltageHist s = (init_outer 0 s)\<lparr>gHistCounter := 0\<rparr>"

text \<open>
  The two summing loops of \<open>computeAvgVoltage\<close>. The first runs while
  \<open>i <= gHistCounter\<close> and is entered only with \<open>gHistCounter < 10\<close>, so its \<open>byte\<close>
  counter stays below 11; the second runs while \<open>i < 10\<close>.
\<close>

function avg_loop_warm :: "u32 \<Rightarrow> nat \<Rightarrow> u32 \<Rightarrow> state \<Rightarrow> u32" where
  "avg_loop_warm j i avgVoltage s =
     (if i \<le> unat (gHistCounter s)
      then avg_loop_warm j (i + 1) (avgVoltage + gVoltageHist s (unat j) i) s
      else avgVoltage)"
  by pat_completeness auto
termination
  by (relation "measure (\<lambda>(j, i, a, s). Suc (unat (gHistCounter s)) - i)") auto

declare avg_loop_warm.simps [simp del]

function avg_loop_full :: "u32 \<Rightarrow> nat \<Rightarrow> u32 \<Rightarrow> state \<Rightarrow> u32" where
  "avg_loop_full j i avgVoltage s =
     (if i < VOLTAGE_HISTORY_NUM
      then avg_loop_full j (i + 1) (avgVoltage + gVoltageHist s (unat j) i) s
      else avgVoltage)"
  by pat_completeness auto
termination
  by (relation "measure (\<lambda>(j, i, a, s). VOLTAGE_HISTORY_NUM - i)") auto

declare avg_loop_full.simps [simp del]

text \<open>
  \<open>floor\<close> is applied to the quotient of two unsigned integers, which is integral already.
  The quotient passes through a floating-point number on the way; that is exact below
  \<open>2 ^ 24\<close>. After \<open>setup\<close> every quotient the sketch forms stays below that: see
  \<open>setup_in_range\<close>, \<open>loop_in_range\<close> and \<open>computeAvgVoltage_in_range\<close> at the end.
\<close>

definition floor_ul :: "u32 \<Rightarrow> u32" where
  "floor_ul x = x"

definition computeAvgVoltage :: "u32 \<Rightarrow> state \<Rightarrow> u32" where
  "computeAvgVoltage j s =
     (if gHistCounter s < of_nat VOLTAGE_HISTORY_NUM
      then floor_ul (avg_loop_warm j 0 0 s div (gHistCounter s + 1))
      else floor_ul (avg_loop_full j 0 0 s div of_nat VOLTAGE_HISTORY_NUM))"

subsection \<open>Lines\<close>

definition setCharge :: "bool \<Rightarrow> state \<Rightarrow> state" where
  "setCharge b s = digitalWrite PIN_CHARGE (\<not> b) s"

definition setDischarge :: "bool \<Rightarrow> state \<Rightarrow> state" where
  "setDischarge b s = digitalWrite PIN_DISCHARGE b s"

definition setLed :: "bool \<Rightarrow> state \<Rightarrow> state" where
  "setLed b s = digitalWrite PIN_LED b s"

definition toggleLed :: "state \<Rightarrow> bool \<times> state" where
  "toggleLed s = (let b = \<not> digitalRead PIN_LED s in (b, setLed b s))"

subsection \<open>Analog reads\<close>

text \<open>
  \<open>getAnalog\<close> returns the \<open>int\<close> of \<open>analogRead\<close> as an \<open>unsigned long\<close> (the value
  modulo \<open>2 ^ 32\<close>). For a \<open>pin\<close> outside 0..3 no \<open>return\<close> is reached.
\<close>

definition getAnalog :: "env \<Rightarrow> u8 \<Rightarrow> state \<Rightarrow> (u32 \<times> state) option" where
  "getAnalog e pin s =
     (if pin = 0 then (case analogRead e A0 s of (v, s') \<Rightarrow> Some (word_of_int v, s'))
      else if pin = 1 then (case analogRead e A1 s of (v, s') \<Rightarrow> Some (word_of_int v, s'))
      else if pin = 2 then (case analogRead e A2 s of (v, s') \<Rightarrow> Some (word_of_int v, s'))
      else if pin = 3 then (case analogRead e A3 s of (v, s') \<Rightarrow> Some (word_of_int v, s'))
      else None)"

text \<open>The sampling loop of \<open>getVoltage\<close>: \<open>for (byte i = 0; i < NB_ANALOG_RD; i++)\<close>.\<close>

function getVoltage_loop :: "env \<Rightarrow> u8 \<Rightarrow> nat \<Rightarrow> u32 \<Rightarrow> state \<Rightarrow> (u32 \<times> state) option" where
  "getVoltage_loop e j i sumv s =
     (if i < NB_ANALOG_RD
      then (case getAnalog e j s of
              None \<Rightarrow> None
            | Some (tmp, s') \<Rightarrow> getVoltage_loop e j (i + 1) (sumv + tmp) (delay 1 s'))
      else Some (sumv, s))"
  by pat_completeness auto
termination
  by (relation "measure (\<lambda>(e, j, i, a, s). NB_ANALOG_RD - i)") auto

declare getVoltage_loop.simps [simp del]

text \<open>
  \<open>getVoltage\<close>: the local \<open>sum\<close> (here \<open>sumv\<close>) is declared without an initial
  value, so the loop starts from whatever the environment gives. After the loop: the mean,
  the scaling, the store into the history at \<open>gHistCounter % 10\<close>, the increment, and the
  rolling average. (A channel outside 0..3 never gets as far as the store: the first
  \<open>getAnalog\<close> of the loop has no result.)
\<close>

definition getVoltage :: "env \<Rightarrow> u8 \<Rightarrow> state \<Rightarrow> (u32 \<times> state) option" where
  "getVoltage e j s =
     (case getVoltage_loop e j 0 (indeterminate e (analog_reads s)) s of
        None \<Rightarrow> None
      | Some (sumv, s1) \<Rightarrow>
          (let sumv = sumv div of_nat NB_ANALOG_RD;
               sumv = (sumv * CAN_REF) div CAN_BITSIZE;
               row = gVoltageHist s1 (unat j);
               s2 = s1\<lparr>gVoltageHist := (gVoltageHist s1)
                        (unat j := row(unat (gHistCounter s1 mod of_nat VOLTAGE_HISTORY_NUM) := sumv))\<rparr>;
               s3 = s2\<lparr>gHistCounter := gHistCounter s2 + 1\<rparr>
           in Some (computeAvgVoltage (ucast j) s3, s3)))"

subsection \<open>Responses\<close>

definition sendUint :: "u32 \<Rightarrow> state \<Rightarrow> state" where
  "sendUint v s = Serial_print v s"

definition sendBool :: "bool \<Rightarrow> state \<Rightarrow> state" where
  "sendBool v s = Serial_write (if v then 1 else 0) s"

subsection \<open>setup and loop\<close>

text \<open>
  \<open>setup\<close> of the sketch (\<open>setup_ino\<close> here): the serial speed, the analog reference and
  the pin modes have no part in the state.
\<close>

definition setup_ino :: "state \<Rightarrow> state" where
  "setup_ino s = initVoltageHist (setLed True (setDischarge False (setCharge False s)))"

text \<open>
  How the \<open>switch\<close> of \<open>loop\<close> is left: by \<open>break\<close> (the stop byte follows) or by the
  \<open>return\<close> of the \<open>default\<close> case.
\<close>

datatype ctl = Break state | Return state

definition send_reading :: "(u32 \<times> state) option \<Rightarrow> ctl option" where
  "send_reading r = (case r of None \<Rightarrow> None | Some (v, s') \<Rightarrow> Some (Break (sendUint v s')))"

definition switch_in :: "env \<Rightarrow> u8 \<Rightarrow> state \<Rightarrow> ctl option" where
  "switch_in e inb s =
     (if inb = READ_A0 then send_reading (getAnalog e 0 s)
      else if inb = READ_V then send_reading (getVoltage e 0 s)
      else if inb = READ_A1 then send_reading (getAnalog e 1 s)
      else if inb = READ_V1 then send_reading (getVoltage e 1 s)
      else if inb = READ_A2 then send_reading (getAnalog e 2 s)
      else if inb = READ_V2 then send_reading (getVoltage e 2 s)
      else if inb = READ_A3 then send_reading (getAnalog e 3 s)
      else if inb = READ_V3 then send_reading (getVoltage e 3 s)
      else if inb = LED_0 then Some (Break (setLed False s))
      else if inb = LED_1 then Some (Break (setLed True s))
      else if inb = LED_TOGGLE then (case toggleLed s of (b, s') \<Rightarrow> Some (Break (sendBool b s')))
      else if inb = PIN_DISCHARGE_0 then Some (Break (setDischarge False s))
      else if inb = PIN_DISCHARGE_1 then Some (Break (setDischarge True s))
      else if inb = PIN_CHARGE_0 then Some (Break (setCharge False s))
      else if inb = PIN_CHARGE_1 then Some (Break (setCharge True s))
      else if inb = MODE_IDLE then Some (Break (setCharge False (setDischarge False s)))
      else if inb = MODE_CHARGE then Some (Break (setCharge True (setDischarge False s)))
      else if inb = MODE_DISCHARGE then Some (Break (setDischarge True (setCharge False s)))
      else if inb = PING then Some (Break s)
      else Some (Return s))"

definition loop :: "env \<Rightarrow> state \<Rightarrow> state option" where
  "loop e s =
     (if \<not> Serial_available s then Some s
      else (case Serial_read s of (inb, s0) \<Rightarrow>
              (case switch_in e inb s0 of
                 None \<Rightarrow> None
               | Some (Return s') \<Rightarrow> Some s'
               | Some (Break s') \<Rightarrow> Some (Serial_write STOP_BYTE s'))))"

subsection \<open>Notions used in the statements\<close>

text \<open>The analog input that \<open>getAnalog\<close> reads for a channel in 0..3.\<close>

definition channel_pin :: "u8 \<Rightarrow> analog_pin" where
  "channel_pin j = (if j = 0 then A0 else if j = 1 then A1 else if j = 2 then A2 else A3)"

text \<open>
  What \<open>getVoltage\<close> makes of the total its loop leaves in \<open>sum\<close>: the two assignments
  after the loop.
\<close>

definition scaled_mean :: "u32 \<Rightarrow> u32" where
  "scaled_mean x = ((x div of_nat NB_ANALOG_RD) * CAN_REF) div CAN_BITSIZE"

text \<open>
  The logical state of the lines, read off the pin levels as the setters write them:
  \<open>setCharge\<close> writes the negated value, \<open>setDischarge\<close> and \<open>setLed\<close> the value itself.
\<close>

definition charge_line :: "(nat \<Rightarrow> bool) \<Rightarrow> bool" where
  "charge_line lv = (\<not> lv PIN_CHARGE)"

definition discharge_line :: "(nat \<Rightarrow> bool) \<Rightarrow> bool" where
  "discharge_line lv = lv PIN_DISCHARGE"

definition indicator :: "(nat \<Rightarrow> bool) \<Rightarrow> bool" where
  "indicator lv = lv PIN_LED"

text \<open>The pin levels after each write of a list of \<open>digitalWrite\<close> calls, in order.\<close>

fun replay :: "(nat \<Rightarrow> bool) \<Rightarrow> (nat \<times> bool) list \<Rightarrow> (nat \<Rightarrow> bool) list" where
  "replay lv [] = []"
| "replay lv (w # ws) = lv(fst w := snd w) # replay (lv(fst w := snd w)) ws"

text \<open>The \<open>digitalWrite\<close> calls made between two states, in order.\<close>

definition written :: "state \<Rightarrow> state \<Rightarrow> (nat \<times> bool) list" where
  "written s s' = drop (length (pin_writes s)) (pin_writes s')"

text \<open>
  Every slot of the history holds at most \<open>(2 ^ 32 - 1) div 1023\<close>, the largest value the
  scaling of \<open>getVoltage\<close> can produce.
\<close>

definition hist_in_range :: "state \<Rightarrow> bool" where
  "hist_in_range s = (\<forall>j<4. \<forall>i<10. unat (gVoltageHist s j i) \<le> 4198404)"

text \<open>The state with which the \<open>switch\<close> is left, either way.\<close>

definition ctl_state :: "ctl \<Rightarrow> state" where
  "ctl_state c = (case c of Break s \<Rightarrow> s | Return s \<Rightarrow> s)"

text \<open>The opcodes of the table, and those that call \<open>getVoltage\<close>.\<close>

definition known_opcodes :: "u8 list" where
  "known_opcodes =
     [READ_A0, READ_V, READ_A1, READ_V1, READ_A2, READ_V2, READ_A3, READ_V3,
      LED_0, LED_1, LED_TOGGLE, PIN_DISCHARGE_0, PIN_DISCHARGE_1, PIN_CHARGE_0, PIN_CHARGE_1,
      MODE_IDLE, MODE_CHARGE, MODE_DISCHARGE, PING]"

definition averaged_read_opcodes :: "u8 list" where
  "averaged_read_opcodes = [READ_V, READ_V1, READ_V2, READ_V3]"

text \<open>A run of averaged reads, one per channel of the list, with the value each returns.\<close>

fun averaged_reads :: "env \<Rightarrow> u8 list \<Rightarrow> state \<Rightarrow> (u32 list \<times> state) option" where
  "averaged_reads e [] s = Some ([], s)"
| "averaged_reads e (j # js) s =
     (case getVoltage e j s of
        None \<Rightarrow> None
      | Some (r, s1) \<Rightarrow>
          (case averaged_reads e js s1 of
             None \<Rightarrow> None
           | Some (rs, s2) \<Rightarrow> Some (r # rs, s2)))"

text \<open>
  Concrete inputs: a board at power-on (before \<open>setup\<close>), a converter that reads 0 on every
  input, and the value the local \<open>sum\<close> starts from (0, or 204).
\<close>

definition power_on :: state where
  "power_on = \<lparr>gVoltageHist = (\<lambda>j i. 0), gHistCounter = 0, pin_level = (\<lambda>p. False),
     pin_writes = [], serial_rx = [], serial_tx = [], analog_reads = 0, elapsed = 0\<rparr>"

definition quiet :: env where
  "quiet = \<lparr>adc = (\<lambda>a n. 0), indeterminate = (\<lambda>n. 0)\<rparr>"

definition quiet_dirty :: env where
  "quiet_dirty = \<lparr>adc = (\<lambda>a n. 0), indeterminate = (\<lambda>n. 204)\<rparr>"

section \<open>The loops in closed form\<close>

lemmas serial_defs = Serial_available_def Serial_read_def Serial_write_def Serial_print_def
  sendUint_def sendBool_def

lemmas line_defs = setCharge_def setDischarge_def setLed_def toggleLed_def digitalWrite_def
  digitalRead_def

lemma getAnalog_channel:
  "j \<in> {0, 1, 2, 3} \<Longrightarrow>
   getAnalog e j s =
     Some (word_of_int (adc e (channel_pin j) (analog_reads s)),
           s\<lparr>analog_reads := analog_reads s + 1\<rparr>)"
  by (auto simp: getAnalog_def analogRead_def channel_pin_def)

lemma getAnalog_None: "j \<notin> {0, 1, 2, 3} \<Longrightarrow> getAnalog e j s = None"
  by (simp add: getAnalog_def)

lemma getVoltage_loop_closed:
  "j \<in> {0, 1, 2, 3} \<Longrightarrow> i \<le> NB_ANALOG_RD \<Longrightarrow>
   getVoltage_loop e j i acc s =
     Some (acc + (\<Sum>k<NB_ANALOG_RD - i. word_of_int (adc e (channel_pin j) (analog_reads s + k))),
           s\<lparr>analog_reads := analog_reads s + (NB_ANALOG_RD - i),
             elapsed := elapsed s + (NB_ANALOG_RD - i)\<rparr>)"
proof (induction e j i acc s rule: getVoltage_loop.induct)
  case (1 e j i sumv s)
  show ?case
  proof (cases "i < NB_ANALOG_RD")
    case True
    let ?s' = "s\<lparr>analog_reads := analog_reads s + 1\<rparr>"
    let ?tmp = "word_of_int (adc e (channel_pin j) (analog_reads s)) :: u32"
    have ga: "getAnalog e j s = Some (?tmp, ?s')"
      using "1.prems"(1) by (rule getAnalog_channel)
    have ih: "getVoltage_loop e j (i + 1) (sumv + ?tmp) (delay 1 ?s') =
       Some (sumv + ?tmp + (\<Sum>k<NB_ANALOG_RD - (i + 1).
                 word_of_int (adc e (channel_pin j) (analog_reads (delay 1 ?s') + k))),
           (delay 1 ?s')\<lparr>analog_reads := analog_reads (delay 1 ?s') + (NB_ANALOG_RD - (i + 1)),
             elapsed := elapsed (delay 1 ?s') + (NB_ANALOG_RD - (i + 1))\<rparr>)"
      using "1.IH"[OF True ga refl "1.prems"(1)] True by simp
    obtain n where n: "NB_ANALOG_RD - i = Suc n"
      using True by (cases "NB_ANALOG_RD - i") auto
    then have n': "NB_ANALOG_RD - (i + 1) = n" by simp
    show ?thesis
      apply (subst getVoltage_loop.simps)
      apply (simp only: True if_True ga option.case prod.case ih n n')
      apply (simp add: delay_def sum.lessThan_Suc_shift add.assoc del: sum.lessThan_Suc)
      done
  next
    case False
    with "1.prems" have "i = NB_ANALOG_RD" by simp
    then show ?thesis
      by (subst getVoltage_loop.simps) simp
  qed
qed

lemma avg_loop_full_closed:
  "i \<le> VOLTAGE_HISTORY_NUM \<Longrightarrow>
   avg_loop_full j i acc s = acc + (\<Sum>k = i..<VOLTAGE_HISTORY_NUM. gVoltageHist s (unat j) k)"
proof (induction j i acc s rule: avg_loop_full.induct)
  case (1 j i avgVoltage s)
  show ?case
  proof (cases "i < VOLTAGE_HISTORY_NUM")
    case True
    then show ?thesis
      using "1.IH"[OF True]
      by (subst avg_loop_full.simps) (simp add: sum.atLeast_Suc_lessThan add.assoc)
  next
    case False
    then show ?thesis
      by (subst avg_loop_full.simps) simp
  qed
qed

lemma avg_loop_warm_closed:
  "i \<le> Suc (unat (gHistCounter s)) \<Longrightarrow>
   avg_loop_warm j i acc s =
     acc + (\<Sum>k = i..<Suc (unat (gHistCounter s)). gVoltageHist s (unat j) k)"
proof (induction j i acc s rule: avg_loop_warm.induct)
  case (1 j i avgVoltage s)
  show ?case
  proof (cases "i \<le> unat (gHistCounter s)")
    case True
    then have lt: "i < Suc (unat (gHistCounter s))" by simp
    show ?thesis
      using "1.IH"[OF True] True
      by (subst avg_loop_warm.simps)
        (simp add: sum.atLeast_Suc_lessThan[OF lt] add.assoc del: sum.op_ivl_Suc)
  next
    case False
    then show ?thesis
      by (subst avg_loop_warm.simps) simp
  qed
qed

lemma computeAvgVoltage_closed:
  "computeAvgVoltage j s =
     (if gHistCounter s < 10
      then (\<Sum>k<Suc (unat (gHistCounter s)). gVoltageHist s (unat j) k) div (gHistCounter s + 1)
      else (\<Sum>k<10. gVoltageHist s (unat j) k) div 10)"
  by (simp add: computeAvgVoltage_def floor_ul_def avg_loop_warm_closed avg_loop_full_closed
      VOLTAGE_HISTORY_NUM_def lessThan_atLeast0 del: sum.op_ivl_Suc sum.lessThan_Suc)

lemma getVoltage_closed:
  assumes j: "j \<in> {0, 1, 2, 3}"
  shows "getVoltage e j s =
     (let v = scaled_mean (indeterminate e (analog_reads s) +
                (\<Sum>k<NB_ANALOG_RD. word_of_int (adc e (channel_pin j) (analog_reads s + k))));
          s' = s\<lparr>gVoltageHist := (gVoltageHist s)
                   (unat j := (gVoltageHist s (unat j))(unat (gHistCounter s mod 10) := v)),
                 gHistCounter := gHistCounter s + 1,
                 analog_reads := analog_reads s + NB_ANALOG_RD,
                 elapsed := elapsed s + NB_ANALOG_RD\<rparr>
      in Some (computeAvgVoltage (ucast j) s', s'))"
proof -
  have eq: "\<And>v. s\<lparr>analog_reads := analog_reads s + NB_ANALOG_RD,
           elapsed := elapsed s + NB_ANALOG_RD,
           gVoltageHist := (gVoltageHist s)
              (unat j := (gVoltageHist s (unat j))(unat (gHistCounter s mod 10) := v)),
           gHistCounter := gHistCounter s + 1\<rparr> =
        s\<lparr>gVoltageHist := (gVoltageHist s)
              (unat j := (gVoltageHist s (unat j))(unat (gHistCounter s mod 10) := v)),
           gHistCounter := gHistCounter s + 1,
           analog_reads := analog_reads s + NB_ANALOG_RD,
           elapsed := elapsed s + NB_ANALOG_RD\<rparr>"
    by (rule state.equality) simp_all
  show ?thesis
    using getVoltage_loop_closed[OF j, of 0 e "indeterminate e (analog_reads s)" s]
    by (simp add: getVoltage_def scaled_mean_def Let_def VOLTAGE_HISTORY_NUM_def eq)
qed

lemma init_inner_closed:
  "init_inner j i s =
     s\<lparr>gVoltageHist := (\<lambda>j' i'. if j' = j \<and> i \<le> i' \<and> i' < VOLTAGE_HISTORY_NUM
                                   then CHARGE_THRESHOLD else gVoltageHist s j' i')\<rparr>"
proof (induction j i s rule: init_inner.induct)
  case (1 j i s)
  show ?case
  proof (cases "i < VOLTAGE_HISTORY_NUM")
    case True
    show ?thesis
      apply (subst init_inner.simps)
      apply (simp only: True if_True "1.IH"[OF True])
      apply (rule state.equality)
      using True apply (auto simp: fun_eq_iff)
      done
  next
    case False
    then show ?thesis
      by (subst init_inner.simps) (auto intro!: state.equality simp: fun_eq_iff)
  qed
qed

lemma init_outer_closed:
  "init_outer j s =
     s\<lparr>gVoltageHist := (\<lambda>j' i'. if j \<le> j' \<and> j' < 4 \<and> i' < VOLTAGE_HISTORY_NUM
                                   then CHARGE_THRESHOLD else gVoltageHist s j' i')\<rparr>"
proof (induction j s rule: init_outer.induct)
  case (1 j s)
  show ?case
  proof (cases "j < 4")
    case True
    show ?thesis
      apply (subst init_outer.simps)
      apply (simp only: True if_True)
      apply (subst "1.IH"[OF True])
      apply (rule state.equality)
      using True apply (auto simp: fun_eq_iff init_inner_closed)
      done
  next
    case False
    then show ?thesis
      by (subst init_outer.simps) (auto intro!: state.equality simp: fun_eq_iff)
  qed
qed

lemma initVoltageHist_closed:
  "initVoltageHist s =
     s\<lparr>gVoltageHist := (\<lambda>j i. if j < 4 \<and> i < 10 then 1500 else gVoltageHist s j i),
       gHistCounter := 0\<rparr>"
  unfolding initVoltageHist_def init_outer_closed VOLTAGE_HISTORY_NUM_def CHARGE_THRESHOLD_def
  by simp

lemma setup_ino_closed:
  "setup_ino s =
     s\<lparr>gVoltageHist := (\<lambda>j i. if j < 4 \<and> i < 10 then 1500 else gVoltageHist s j i),
       gHistCounter := 0,
       pin_level := (pin_level s)(PIN_CHARGE := True, PIN_DISCHARGE := False, PIN_LED := True),
       pin_writes := pin_writes s @ [(PIN_CHARGE, True), (PIN_DISCHARGE, False), (PIN_LED, True)]\<rparr>"
  unfolding setup_ino_def initVoltageHist_closed setLed_def setDischarge_def setCharge_def
      digitalWrite_def
  by (rule state.equality) (simp_all cong: if_cong)

lemma getVoltage_None: "j \<notin> {0, 1, 2, 3} \<Longrightarrow> getVoltage e j s = None"
proof -
  assume "j \<notin> {0, 1, 2, 3}"
  then have "getAnalog e j s = None" by (rule getAnalog_None)
  then have "getVoltage_loop e j 0 (indeterminate e (analog_reads s)) s = None"
    by (subst getVoltage_loop.simps) (simp add: NB_ANALOG_RD_def)
  then show "getVoltage e j s = None" by (simp add: getVoltage_def)
qed

lemma getVoltage_Some: "j \<in> {0, 1, 2, 3} \<Longrightarrow> getVoltage e j s \<noteq> None"
  by (simp only: getVoltage_closed Let_def) simp

section \<open>The dispatcher\<close>

lemma send_reading_getAnalog:
  "j \<in> {0, 1, 2, 3} \<Longrightarrow> \<exists>s'. send_reading (getAnalog e j s) = Some (Break s') \<and>
     gVoltageHist s' = gVoltageHist s \<and> gHistCounter s' = gHistCounter s"
  by (simp only: getAnalog_channel send_reading_def option.case prod.case)
     (simp add: serial_defs)

lemma send_reading_getVoltage:
  "j \<in> {0, 1, 2, 3} \<Longrightarrow> \<exists>s'. send_reading (getVoltage e j s) = Some (Break s')"
  by (simp only: getVoltage_closed Let_def send_reading_def option.case prod.case) simp

lemma switch_in_defined: "switch_in e inb s \<noteq> None"
proof -
  have a: "\<And>j. j \<in> {0, 1, 2, 3} \<Longrightarrow> send_reading (getAnalog e j s) \<noteq> None"
    using send_reading_getAnalog[of _ e s] by fastforce
  have v: "\<And>j. j \<in> {0, 1, 2, 3} \<Longrightarrow> send_reading (getVoltage e j s) \<noteq> None"
    using send_reading_getVoltage[of _ e s] by fastforce
  have a0: "send_reading (getAnalog e 0 s) \<noteq> None" by (rule a) simp
  have a1: "send_reading (getAnalog e 1 s) \<noteq> None" by (rule a) simp
  have a2: "send_reading (getAnalog e 2 s) \<noteq> None" by (rule a) simp
  have a3: "send_reading (getAnalog e 3 s) \<noteq> None" by (rule a) simp
  have v0: "send_reading (getVoltage e 0 s) \<noteq> None" by (rule v) simp
  have v1: "send_reading (getVoltage e 1 s) \<noteq> None" by (rule v) simp
  have v2: "send_reading (getVoltage e 2 s) \<noteq> None" by (rule v) simp
  have v3: "send_reading (getVoltage e 3 s) \<noteq> None" by (rule v) simp
  show ?thesis
    unfolding switch_in_def
    using a0 a1 a2 a3 v0 v1 v2 v3
    by (simp split: prod.splits)
qed

lemma loop_defined: "loop e s \<noteq> None"
  using switch_in_defined[of e "hd (serial_rx s)" "s\<lparr>serial_rx := tl (serial_rx s)\<rparr>"]
  by (auto simp: loop_def Serial_available_def Serial_read_def split: option.splits ctl.splits)

lemma switch_in_frame:
  assumes "inb \<notin> set averaged_read_opcodes"
  shows "case switch_in e inb s of None \<Rightarrow> False
         | Some c \<Rightarrow> gVoltageHist (ctl_state c) = gVoltageHist s \<and>
                     gHistCounter (ctl_state c) = gHistCounter s"
proof -
  obtain s0 where a0: "send_reading (getAnalog e 0 s) = Some (Break s0)"
     "gVoltageHist s0 = gVoltageHist s" "gHistCounter s0 = gHistCounter s"
    using send_reading_getAnalog[of 0 e s] by auto
  obtain s1 where a1: "send_reading (getAnalog e 1 s) = Some (Break s1)"
     "gVoltageHist s1 = gVoltageHist s" "gHistCounter s1 = gHistCounter s"
    using send_reading_getAnalog[of 1 e s] by auto
  obtain s2 where a2: "send_reading (getAnalog e 2 s) = Some (Break s2)"
     "gVoltageHist s2 = gVoltageHist s" "gHistCounter s2 = gHistCounter s"
    using send_reading_getAnalog[of 2 e s] by auto
  obtain s3 where a3: "send_reading (getAnalog e 3 s) = Some (Break s3)"
     "gVoltageHist s3 = gVoltageHist s" "gHistCounter s3 = gHistCounter s"
    using send_reading_getAnalog[of 3 e s] by auto
  have nv: "inb \<noteq> READ_V" "inb \<noteq> READ_V1" "inb \<noteq> READ_V2" "inb \<noteq> READ_V3"
    using assms by (simp_all add: averaged_read_opcodes_def)
  show ?thesis
    unfolding switch_in_def
    using nv
    by (simp add: a0 a1 a2 a3 line_defs serial_defs opcode_defs Let_def ctl_state_def)
qed

text \<open>
  C1 (what the code does at the claim's opcodes). On a board that has just run \<open>setup\<close>,
  each of LED_0, LED_1, PIN_DISCHARGE_0/1, PIN_CHARGE_0/1, MODE_IDLE, MODE_CHARGE,
  MODE_DISCHARGE and PING is answered by the single byte 0xFF: the stop byte alone, with
  no payload byte 0 before it.
\<close>

theorem plain_opcodes_emit_only_stop_byte:
  "list_all (\<lambda>inb. map_option serial_tx
                (loop quiet ((setup_ino power_on)\<lparr>serial_rx := [inb]\<rparr>)) = Some [0xFF])
     [LED_0, LED_1, PIN_DISCHARGE_0, PIN_DISCHARGE_1, PIN_CHARGE_0, PIN_CHARGE_1,
      MODE_IDLE, MODE_CHARGE, MODE_DISCHARGE, PING]"
  by (simp add: loop_def switch_in_def setup_ino_closed power_on_def
      serial_defs line_defs opcode_defs)

text \<open>
  C5. For an input byte that is none of the opcodes of the table, \<open>loop\<close> consumes the byte
  and changes nothing else: the pin levels and the list of pin writes, the voltage history
  and its counter are as before, and no byte is written to the serial link, not even the
  stop byte.
\<close>

theorem unknown_opcode_is_silent:
  assumes "serial_rx s = inb # rest" and "inb \<notin> set known_opcodes"
  shows "loop e s = Some (s\<lparr>serial_rx := rest\<rparr>)"
  using assms
  by (simp add: loop_def switch_in_def known_opcodes_def serial_defs)

theorem unknown_opcode_is_silent_witness:
  "loop quiet ((setup_ino power_on)\<lparr>serial_rx := [0x99]\<rparr>) = Some (setup_ino power_on)"
  using unknown_opcode_is_silent[of "(setup_ino power_on)\<lparr>serial_rx := [0x99]\<rparr>" "0x99" "[]" quiet]
  by (simp add: known_opcodes_def opcode_defs power_on_def setup_ino_closed)

text \<open>
  C6. Whatever the pin levels were, MODE_CHARGE leaves the discharge line false and the
  charge line true, MODE_DISCHARGE the charge line false and the discharge line true,
  MODE_IDLE both false. Each mode action makes exactly two pin writes, the one that turns
  a line off first; the pin levels after each of the two writes never have both lines
  asserted, and the levels after the second write are those \<open>loop\<close> returns.
\<close>

theorem mode_actions_never_assert_both:
  assumes "serial_rx s = inb # rest"
    and "inb \<in> {MODE_IDLE, MODE_CHARGE, MODE_DISCHARGE}"
  shows "\<exists>s'. loop e s = Some s' \<and>
           charge_line (pin_level s') = (inb = MODE_CHARGE) \<and>
           discharge_line (pin_level s') = (inb = MODE_DISCHARGE) \<and>
           pin_writes s' = pin_writes s @ written s s' \<and>
           written s s' =
             (if inb = MODE_DISCHARGE then [(PIN_CHARGE, True), (PIN_DISCHARGE, True)]
              else [(PIN_DISCHARGE, False), (PIN_CHARGE, inb \<noteq> MODE_CHARGE)]) \<and>
           pin_level s' = last (replay (pin_level s) (written s s')) \<and>
           (\<forall>lv \<in> set (replay (pin_level s) (written s s')).
              \<not> (charge_line lv \<and> discharge_line lv))"
  using assms
  by (auto simp: loop_def switch_in_def serial_defs line_defs opcode_defs pin_defs
      charge_line_def discharge_line_def written_def)

theorem mode_actions_never_assert_both_witness:
  "\<exists>s'. loop quiet (power_on\<lparr>pin_level := (\<lambda>p. p = PIN_DISCHARGE),
                               serial_rx := [MODE_CHARGE]\<rparr>) = Some s' \<and>
     charge_line (pin_level s') \<and> \<not> discharge_line (pin_level s') \<and>
     pin_writes s' = [(PIN_DISCHARGE, False), (PIN_CHARGE, False)]"
  using mode_actions_never_assert_both[of
      "power_on\<lparr>pin_level := (\<lambda>p. p = PIN_DISCHARGE), serial_rx := [MODE_CHARGE]\<rparr>"
      MODE_CHARGE "[]" quiet]
  by (auto simp: power_on_def opcode_defs written_def)

text \<open>
  C7. Two LED_TOGGLE commands in a row, from any state: each is answered by one payload
  byte and the stop byte, the payload byte is the new state of the indicator, the two
  payload bytes are 0 and 1 in one order or the other, and the pin levels after the second
  are those before the first. After \<open>setup\<close> the indicator is on, and the two answers are
  the bytes 0x00, 0xFF and then 0x01, 0xFF.
\<close>

theorem led_toggle_involution:
  "(\<exists>s1 s2 b1 b2.
      loop e (s\<lparr>serial_rx := LED_TOGGLE # LED_TOGGLE # rest\<rparr>) = Some s1 \<and>
      loop e s1 = Some s2 \<and>
      serial_tx s1 = serial_tx s @ [b1, STOP_BYTE] \<and>
      serial_tx s2 = serial_tx s1 @ [b2, STOP_BYTE] \<and>
      (b1 = 0 \<and> b2 = 1 \<or> b1 = 1 \<and> b2 = 0) \<and>
      (b1 = 1) = indicator (pin_level s1) \<and> (b2 = 1) = indicator (pin_level s2) \<and>
      pin_level s2 = pin_level s) \<and>
   (\<exists>s1 s2.
      indicator (pin_level (setup_ino s)) \<and>
      loop e ((setup_ino s)\<lparr>serial_rx := [0x12, 0x12]\<rparr>) = Some s1 \<and>
      loop e s1 = Some s2 \<and>
      serial_tx s1 = serial_tx s @ [0x00, 0xFF] \<and>
      serial_tx s2 = serial_tx s @ [0x00, 0xFF] @ [0x01, 0xFF])"
  by (auto simp: loop_def switch_in_def serial_defs line_defs opcode_defs pin_defs
      indicator_def setup_ino_closed Let_def)

text \<open>
  C9. \<open>getAnalog\<close> returns a value exactly for the channels 0, 1, 2 and 3: there it
  is the sample of the analog input of that number (A0..A3) and nothing but the count of
  analog reads changes; for every other channel no \<open>return\<close> is reached, in
  \<open>getAnalog\<close> and so in \<open>getVoltage\<close>. The dispatcher never gets there: \<open>loop\<close>
  returns a state for every input byte, from every state.
\<close>

theorem getAnalog_defined_on_channels:
  "getAnalog e 0 s =
     Some (word_of_int (adc e A0 (analog_reads s)), s\<lparr>analog_reads := analog_reads s + 1\<rparr>) \<and>
   getAnalog e 1 s =
     Some (word_of_int (adc e A1 (analog_reads s)), s\<lparr>analog_reads := analog_reads s + 1\<rparr>) \<and>
   getAnalog e 2 s =
     Some (word_of_int (adc e A2 (analog_reads s)), s\<lparr>analog_reads := analog_reads s + 1\<rparr>) \<and>
   getAnalog e 3 s =
     Some (word_of_int (adc e A3 (analog_reads s)), s\<lparr>analog_reads := analog_reads s + 1\<rparr>) \<and>
   (pin \<notin> {0, 1, 2, 3} \<longrightarrow> getAnalog e pin s = None \<and> getVoltage e pin s = None) \<and>
   (pin \<in> {0, 1, 2, 3} \<longrightarrow> getVoltage e pin s \<noteq> None) \<and>
   loop e s \<noteq> None"
  using getVoltage_None[of pin e s] getVoltage_Some[of pin e s] getAnalog_None[of pin e s]
    loop_defined[of e s]
  by (simp add: getAnalog_def analogRead_def)

theorem getAnalog_defined_on_channels_witness:
  "getAnalog quiet 2 power_on = Some (0, power_on\<lparr>analog_reads := 1\<rparr>) \<and>
   getAnalog quiet 7 power_on = None \<and> getVoltage quiet 7 power_on = None \<and>
   getVoltage quiet 3 power_on \<noteq> None \<and>
   loop quiet (power_on\<lparr>serial_rx := [READ_V3]\<rparr>) \<noteq> None"
  using getAnalog_defined_on_channels[of quiet power_on 7]
    getAnalog_defined_on_channels[of quiet power_on 3]
    getAnalog_defined_on_channels[of quiet "power_on\<lparr>serial_rx := [READ_V3]\<rparr>" 0]
  by (simp add: quiet_def power_on_def)

text \<open>
  C10. A call of \<open>loop\<close> that finds no byte, or a byte other than READ_V, READ_V1, READ_V2
  and READ_V3 (so every raw read, every LED, pin and mode command, the ping, and every
  unknown byte), returns a state whose voltage history and counter are those it started
  with.
\<close>

theorem only_averaged_reads_touch_history:
  assumes "serial_rx s = [] \<or> hd (serial_rx s) \<notin> set averaged_read_opcodes"
  shows "\<exists>s'. loop e s = Some s' \<and> gVoltageHist s' = gVoltageHist s \<and>
               gHistCounter s' = gHistCounter s"
proof (cases "serial_rx s = []")
  case True
  then show ?thesis by (simp add: loop_def Serial_available_def)
next
  case False
  with assms have "hd (serial_rx s) \<notin> set averaged_read_opcodes" by simp
  from switch_in_frame[OF this, where e = e and s = "s\<lparr>serial_rx := tl (serial_rx s)\<rparr>"] False
  show ?thesis
    by (auto simp: loop_def Serial_available_def Serial_read_def Serial_write_def ctl_state_def
        split: option.splits ctl.splits)
qed

theorem only_averaged_reads_touch_history_witness:
  "\<exists>s'. loop quiet ((setup_ino power_on)\<lparr>serial_rx := [READ_A2]\<rparr>) = Some s' \<and>
     gVoltageHist s' = gVoltageHist (setup_ino power_on) \<and> gHistCounter s' = 0"
  using only_averaged_reads_touch_history[of "(setup_ino power_on)\<lparr>serial_rx := [READ_A2]\<rparr>" quiet]
  by (simp add: averaged_read_opcodes_def opcode_defs setup_ino_closed)

section \<open>The rolling average\<close>

lemma u32_of_nat_div:
  "a < 2 ^ 32 \<Longrightarrow> b < 2 ^ 32 \<Longrightarrow> (of_nat a :: u32) div of_nat b = of_nat (a div b)"
  by (simp add: word_arith_nat_div unat_of_nat)

lemma scaled_mean_const:
  assumes "R \<le> 1023"
  shows "scaled_mean (of_nat NB_ANALOG_RD * of_nat R) = of_nat (R * 2410 div 1023)"
proof -
  have a: "(of_nat 204 * of_nat R :: u32) = of_nat (204 * R)" by simp
  have b: "(of_nat (204 * R) :: u32) div of_nat 204 = of_nat ((204 * R) div 204)"
    using assms by (intro u32_of_nat_div) simp_all
  have c: "(of_nat R * of_nat 2410 :: u32) = of_nat (R * 2410)" by simp
  have d: "(of_nat (R * 2410) :: u32) div of_nat 1023 = of_nat (R * 2410 div 1023)"
    using assms by (intro u32_of_nat_div) simp_all
  show ?thesis
    unfolding scaled_mean_def config_defs
    using a b c d by simp
qed

lemma scaled_mean_bound: "unat (scaled_mean x) \<le> 4198404"
proof -
  have "unat (scaled_mean x) = unat ((x div of_nat NB_ANALOG_RD) * CAN_REF) div 1023"
    by (simp add: scaled_mean_def unat_div config_defs)
  also have "\<dots> \<le> (2 ^ 32 - 1) div 1023"
    by (rule div_le_mono)
      (use unsigned_less[of "(x div of_nat NB_ANALOG_RD) * CAN_REF", where 'a = nat] in simp)
  finally show ?thesis by simp
qed

lemma mean_of_equal:
  assumes "0 < n" and "n \<le> 10" and "unat v \<le> 4198404"
  shows "(of_nat n * v :: u32) div of_nat n = v"
proof -
  have n: "unat (of_nat n :: u32) = n" using assms by (simp add: unat_of_nat)
  have "n * unat v \<le> 10 * 4198404" using assms by (intro mult_mono) simp_all
  then have lt: "n * unat v < 2 ^ 32" by simp
  have m: "unat (of_nat n * v :: u32) = n * unat v"
    using lt unat_mult_lem[of "of_nat n :: u32" v] by (simp add: n)
  have "unat ((of_nat n * v :: u32) div of_nat n) = unat v"
    using assms(1) by (simp add: unat_div m n)
  then show ?thesis by (simp add: word_unat_eq_iff)
qed


lemma full_row_average:
  assumes full: "\<forall>i<10. gVoltageHist s (unat j) i = v" and v: "unat v \<le> 4198404"
  shows "computeAvgVoltage j s = v"
proof (cases "gHistCounter s < 10")
  case True
  let ?n = "unat (gHistCounter s)"
  from True have n: "?n < 10" by (simp add: word_less_nat_alt)
  have "(\<Sum>k<Suc ?n. gVoltageHist s (unat j) k) = (\<Sum>k<Suc ?n. v)"
    by (rule sum.cong) (use n full in auto)
  also have "\<dots> = of_nat (Suc ?n) * v" by simp
  finally have s: "(\<Sum>k<Suc ?n. gVoltageHist s (unat j) k) = of_nat (Suc ?n) * v" .
  have c: "gHistCounter s + 1 = of_nat (Suc ?n)" by simp
  show ?thesis
    unfolding computeAvgVoltage_closed s c
    using True mean_of_equal[of "Suc ?n" v] n v by simp
next
  case False
  have "(\<Sum>k<10. gVoltageHist s (unat j) k) = (\<Sum>k<(10::nat). v)"
    by (rule sum.cong) (use full in auto)
  also have "\<dots> = of_nat 10 * v" by simp
  finally have s: "(\<Sum>k<10. gVoltageHist s (unat j) k) = of_nat 10 * v" .
  show ?thesis
    unfolding computeAvgVoltage_closed s
    using False mean_of_equal[of 10 v] v by simp
qed

lemma getVoltage_constant:
  assumes j: "j \<in> {0, 1, 2, 3}"
    and const: "\<forall>n. adc e (channel_pin j) n = int R"
    and zero: "\<forall>n. indeterminate e n = 0"
  shows "getVoltage e j s =
     (let s' = s\<lparr>gVoltageHist := (gVoltageHist s)
                   (unat j := (gVoltageHist s (unat j))
                      (unat (gHistCounter s mod 10) := scaled_mean (of_nat NB_ANALOG_RD * of_nat R))),
                 gHistCounter := gHistCounter s + 1,
                 analog_reads := analog_reads s + NB_ANALOG_RD,
                 elapsed := elapsed s + NB_ANALOG_RD\<rparr>
      in Some (computeAvgVoltage (ucast j) s', s'))"
  unfolding getVoltage_closed[OF j]
  by (simp add: const zero Let_def)


lemma averaged_reads_append:
  "averaged_reads e (xs @ ys) s =
     (case averaged_reads e xs s of
        None \<Rightarrow> None
      | Some (rs, s1) \<Rightarrow>
          (case averaged_reads e ys s1 of
             None \<Rightarrow> None
           | Some (rs', s2) \<Rightarrow> Some (rs @ rs', s2)))"
  by (induction xs arbitrary: s) (auto split: option.splits)

lemma unat_channel: "j \<in> {0, 1, 2, 3} \<Longrightarrow> unat (ucast (j :: u8) :: u32) = unat j"
  by auto

lemma read_on_full_row:
  assumes j: "j \<in> {0, 1, 2, 3}"
    and const: "\<forall>n. adc e (channel_pin j) n = int R"
    and zero: "\<forall>n. indeterminate e n = 0"
    and full: "\<forall>i<10. gVoltageHist s (unat j) i = scaled_mean (of_nat NB_ANALOG_RD * of_nat R)"
  shows "\<exists>s'. getVoltage e j s = Some (scaled_mean (of_nat NB_ANALOG_RD * of_nat R), s') \<and>
           (\<forall>i<10. gVoltageHist s' (unat j) i = scaled_mean (of_nat NB_ANALOG_RD * of_nat R))"
proof -
  let ?v = "scaled_mean (of_nat NB_ANALOG_RD * of_nat R)"
  let ?s' = "s\<lparr>gVoltageHist := (gVoltageHist s)
                   (unat j := (gVoltageHist s (unat j))(unat (gHistCounter s mod 10) := ?v)),
                 gHistCounter := gHistCounter s + 1,
                 analog_reads := analog_reads s + NB_ANALOG_RD,
                 elapsed := elapsed s + NB_ANALOG_RD\<rparr>"
  have full': "\<forall>i<10. gVoltageHist ?s' (unat (ucast j :: u32)) i = ?v"
    using full by (simp add: unat_channel[OF j])
  have "computeAvgVoltage (ucast j) ?s' = ?v"
    using full' scaled_mean_bound by (rule full_row_average)
  moreover have "\<forall>i<10. gVoltageHist ?s' (unat j) i = ?v"
    using full by simp
  ultimately show ?thesis
    unfolding getVoltage_constant[OF j const zero] Let_def by blast
qed

lemma read_on_other_row:
  assumes j': "j' \<in> {0, 1, 2, 3}" and j: "j \<in> {0, 1, 2, 3}" and ne: "j' \<noteq> j"
    and full: "\<forall>i<10. gVoltageHist s (unat j) i = v"
  shows "\<exists>r s'. getVoltage e j' s = Some (r, s') \<and> (\<forall>i<10. gVoltageHist s' (unat j) i = v)"
proof -
  have "unat j' \<noteq> unat j" using ne by (simp add: word_unat_eq_iff)
  then show ?thesis
    unfolding getVoltage_closed[OF j'] Let_def using full by simp
qed


lemma reads_from_full_row:
  assumes j: "j \<in> {0, 1, 2, 3}"
    and const: "\<forall>n. adc e (channel_pin j) n = int R"
    and zero: "\<forall>n. indeterminate e n = 0"
  shows "set js \<subseteq> {0, 1, 2, 3} \<Longrightarrow>
     \<forall>i<10. gVoltageHist s (unat j) i = scaled_mean (of_nat NB_ANALOG_RD * of_nat R) \<Longrightarrow>
     \<exists>rs s'. averaged_reads e js s = Some (rs, s') \<and> length rs = length js \<and>
       (\<forall>k<length js. js ! k = j \<longrightarrow> rs ! k = scaled_mean (of_nat NB_ANALOG_RD * of_nat R))"
proof (induction js arbitrary: s)
  case Nil
  then show ?case by simp
next
  case (Cons a js)
  let ?v = "scaled_mean (of_nat NB_ANALOG_RD * of_nat R)"
  from Cons.prems have a: "a \<in> {0, 1, 2, 3}" and js: "set js \<subseteq> {0, 1, 2, 3}" by auto
  have "\<exists>r s1. getVoltage e a s = Some (r, s1) \<and> (a = j \<longrightarrow> r = ?v) \<and>
          (\<forall>i<10. gVoltageHist s1 (unat j) i = ?v)"
  proof (cases "a = j")
    case True
    with read_on_full_row[OF j const zero Cons.prems(2)] show ?thesis by blast
  next
    case False
    with read_on_other_row[OF a j False Cons.prems(2), of e] show ?thesis by blast
  qed
  then obtain r s1 where r: "getVoltage e a s = Some (r, s1)" "a = j \<longrightarrow> r = ?v"
    and full1: "\<forall>i<10. gVoltageHist s1 (unat j) i = ?v" by blast
  from Cons.IH[OF js full1] obtain rs s' where
    rs: "averaged_reads e js s1 = Some (rs, s')" "length rs = length js"
      "\<forall>k<length js. js ! k = j \<longrightarrow> rs ! k = ?v" by blast
  have "\<forall>k<length (a # js). (a # js) ! k = j \<longrightarrow> (r # rs) ! k = ?v"
    using r(2) rs(3) by (auto simp: nth_Cons split: nat.splits)
  then show ?case using r(1) rs(1,2) by simp
qed

lemma consecutive_reads_fill:
  assumes j: "j \<in> {0, 1, 2, 3}"
    and const: "\<forall>n. adc e (channel_pin j) n = int R"
    and zero: "\<forall>n. indeterminate e n = 0"
  shows "unat (gHistCounter s) + k \<le> 2 ^ 32 \<Longrightarrow>
     \<exists>rs s'. averaged_reads e (replicate k j) s = Some (rs, s') \<and> length rs = k \<and>
       gHistCounter s' = gHistCounter s + of_nat k \<and>
       (\<forall>m<k. gVoltageHist s' (unat j) ((unat (gHistCounter s) + m) mod 10) =
                 scaled_mean (of_nat NB_ANALOG_RD * of_nat R))"
proof (induction k)
  case 0
  then show ?case by simp
next
  case (Suc k)
  let ?v = "scaled_mean (of_nat NB_ANALOG_RD * of_nat R)"
  let ?c = "gHistCounter s"
  from Suc.prems have lt: "unat ?c + k < 2 ^ 32" by simp
  with Suc.IH obtain rs s1 where
    rs: "averaged_reads e (replicate k j) s = Some (rs, s1)" "length rs = k"
      "gHistCounter s1 = ?c + of_nat k"
      "\<forall>m<k. gVoltageHist s1 (unat j) ((unat ?c + m) mod 10) = ?v" by auto
  have k: "unat (of_nat k :: u32) = k" using lt by (simp add: unat_of_nat)
  have "unat (?c + of_nat k) = unat ?c + k"
    using lt unat_add_lem[of ?c "of_nat k"] by (simp add: k)
  then have slot: "unat (gHistCounter s1 mod 10) = (unat ?c + k) mod 10"
    by (simp add: rs(3) unat_mod)
  obtain r s' where
    r: "getVoltage e j s1 = Some (r, s')"
       "gVoltageHist s' (unat j) = (gVoltageHist s1 (unat j))((unat ?c + k) mod 10 := ?v)"
       "gHistCounter s' = gHistCounter s1 + 1"
    unfolding getVoltage_constant[OF j const zero] Let_def by (simp add: slot)
  have "\<forall>m<Suc k. gVoltageHist s' (unat j) ((unat ?c + m) mod 10) = ?v"
    using rs(4) by (auto simp: r(2) less_Suc_eq)
  moreover have "replicate (Suc k) j = replicate k j @ [j]"
    by (simp add: replicate_append_same)
  then have "averaged_reads e (replicate (Suc k) j) s = Some (rs @ [r], s')"
    by (simp only: averaged_reads_append rs(1) r(1) averaged_reads.simps
        option.case prod.case append_Nil)
  ultimately show ?case
    using rs(2) r(3) rs(3) by (simp add: add.assoc)
qed

lemma residues_covered:
  fixes i n :: nat
  assumes i: "i < 10"
  shows "\<exists>m<10. (n + m) mod 10 = i"
proof -
  define a where "a = n mod 10"
  have a: "a < 10" by (simp add: a_def)
  define m where "m = (if a \<le> i then i - a else i + 10 - a)"
  have m: "m < 10" using a i unfolding m_def by (cases "a \<le> i") simp_all
  have "a + m = i \<or> a + m = i + 10" using a i unfolding m_def by (cases "a \<le> i") simp_all
  then have "(a + m) mod 10 = i" using i by auto
  moreover have "(n + m) mod 10 = (a + m) mod 10"
    unfolding a_def by (simp add: mod_add_left_eq)
  ultimately show ?thesis using m by auto
qed

lemma ten_reads_fill_row:
  assumes j: "j \<in> {0, 1, 2, 3}"
    and const: "\<forall>n. adc e (channel_pin j) n = int R"
    and zero: "\<forall>n. indeterminate e n = 0"
    and nowrap: "unat (gHistCounter s) + 10 \<le> 2 ^ 32"
  shows "\<exists>rs s'. averaged_reads e (replicate 10 j) s = Some (rs, s') \<and> length rs = 10 \<and>
       rs ! 9 = scaled_mean (of_nat NB_ANALOG_RD * of_nat R) \<and>
       (\<forall>i<10. gVoltageHist s' (unat j) i = scaled_mean (of_nat NB_ANALOG_RD * of_nat R))"
proof -
  let ?v = "scaled_mean (of_nat NB_ANALOG_RD * of_nat R)"
  let ?c = "gHistCounter s"
  from nowrap have nine: "unat ?c + 9 \<le> 2 ^ 32" and lt: "unat ?c + 9 < 2 ^ 32" by simp_all
  from consecutive_reads_fill[OF j const zero nine] obtain rs s9 where
    rs: "averaged_reads e (replicate 9 j) s = Some (rs, s9)" "length rs = 9"
      "gHistCounter s9 = ?c + of_nat 9"
      "\<forall>m<9. gVoltageHist s9 (unat j) ((unat ?c + m) mod 10) = ?v" by blast
  have "unat (?c + 9) = unat ?c + 9"
    using lt unat_add_lem[of ?c 9] by simp
  then have slot: "unat (gHistCounter s9 mod 10) = (unat ?c + 9) mod 10"
    by (simp add: rs(3) unat_mod)
  let ?s' = "s9\<lparr>gVoltageHist := (gVoltageHist s9)
                   (unat j := (gVoltageHist s9 (unat j))((unat ?c + 9) mod 10 := ?v)),
                 gHistCounter := gHistCounter s9 + 1,
                 analog_reads := analog_reads s9 + NB_ANALOG_RD,
                 elapsed := elapsed s9 + NB_ANALOG_RD\<rparr>"
  have r: "getVoltage e j s9 = Some (computeAvgVoltage (ucast j) ?s', ?s')"
    unfolding getVoltage_constant[OF j const zero] Let_def slot by simp
  have covered: "\<forall>m<10. gVoltageHist ?s' (unat j) ((unat ?c + m) mod 10) = ?v"
  proof (intro allI impI)
    fix m :: nat
    assume "m < 10"
    then have "m < 9 \<or> m = 9" by arith
    then show "gVoltageHist ?s' (unat j) ((unat ?c + m) mod 10) = ?v"
      using rs(4) by auto
  qed
  have full: "\<forall>i<10. gVoltageHist ?s' (unat j) i = ?v"
  proof (intro allI impI)
    fix i :: nat
    assume "i < 10"
    then obtain m where "m < 10" "(unat ?c + m) mod 10 = i"
      using residues_covered[of i "unat ?c"] by blast
    with covered show "gVoltageHist ?s' (unat j) i = ?v" by blast
  qed
  then have "\<forall>i<10. gVoltageHist ?s' (unat (ucast j :: u32)) i = ?v"
    by (simp only: unat_channel[OF j])
  then have avg: "computeAvgVoltage (ucast j) ?s' = ?v"
    using scaled_mean_bound by (rule full_row_average)
  have "replicate 10 j = replicate 9 j @ [j]"
    by (simp add: numeral_eq_Suc replicate_append_same)
  then have "averaged_reads e (replicate 10 j) s = Some (rs @ [?v], ?s')"
    by (simp only: averaged_reads_append rs(1) r avg averaged_reads.simps
        option.case prod.case append_Nil)
  moreover have "(rs @ [?v]) ! 9 = ?v" using rs(2) by (simp add: nth_append)
  ultimately show ?thesis using full rs(2) by auto
qed

text \<open>
  C8 (amended). Let the analog input of channel \<open>j\<close> read the same raw value \<open>R\<close> at
  every read, and let the accumulator of every averaged read start at 0. From a state
  whose counter will not wrap within ten reads, ten averaged reads of channel \<open>j\<close> in a
  row, followed by averaged reads of any channels in any order, all return a value, and
  the tenth read and every later read of channel \<open>j\<close> return exactly the value the
  per-read pipeline makes of 204 copies of \<open>R\<close>; for \<open>R\<close> up to 1023 that value is
  \<open>R * 2410 div 1023\<close>.
\<close>

theorem constant_source_settles:
  assumes j: "j \<in> {0, 1, 2, 3}" and js: "set js \<subseteq> {0, 1, 2, 3}"
    and const: "\<forall>n. adc e (channel_pin j) n = int R"
    and zero: "\<forall>n. indeterminate e n = 0"
    and nowrap: "unat (gHistCounter s) + 10 \<le> 2 ^ 32"
  shows "(\<exists>rs s'. averaged_reads e (replicate 10 j @ js) s = Some (rs, s') \<and>
            length rs = 10 + length js \<and>
            (\<forall>k<length rs. 9 \<le> k \<longrightarrow> (replicate 10 j @ js) ! k = j \<longrightarrow>
               rs ! k = scaled_mean (of_nat NB_ANALOG_RD * of_nat R))) \<and>
         (R \<le> 1023 \<longrightarrow>
            scaled_mean (of_nat NB_ANALOG_RD * of_nat R) = of_nat (R * 2410 div 1023))"
proof -
  let ?v = "scaled_mean (of_nat NB_ANALOG_RD * of_nat R)"
  have v: "R \<le> 1023 \<longrightarrow> ?v = of_nat (R * 2410 div 1023)"
    using scaled_mean_const[of R] by blast
  from ten_reads_fill_row[OF j const zero nowrap] obtain rs s10 where
    ten: "averaged_reads e (replicate 10 j) s = Some (rs, s10)" "length rs = 10" "rs ! 9 = ?v"
      "\<forall>i<10. gVoltageHist s10 (unat j) i = ?v" by blast
  from reads_from_full_row[OF j const zero js ten(4)] obtain rs' s' where
    rest: "averaged_reads e js s10 = Some (rs', s')" "length rs' = length js"
      "\<forall>k<length js. js ! k = j \<longrightarrow> rs' ! k = ?v" by blast
  have run: "averaged_reads e (replicate 10 j @ js) s = Some (rs @ rs', s')"
    by (simp only: averaged_reads_append ten(1) rest(1) option.case prod.case)
  have "\<forall>k<length (rs @ rs'). 9 \<le> k \<longrightarrow> (replicate 10 j @ js) ! k = j \<longrightarrow> (rs @ rs') ! k = ?v"
  proof (intro allI impI)
    fix k
    assume k: "k < length (rs @ rs')" "9 \<le> k" "(replicate 10 j @ js) ! k = j"
    show "(rs @ rs') ! k = ?v"
    proof (cases "k = 9")
      case True
      then show ?thesis using ten(2,3) by (simp add: nth_append)
    next
      case False
      with k(2) have ge: "10 \<le> k" by simp
      then have "(replicate 10 j @ js) ! k = js ! (k - 10)" by (simp add: nth_append)
      with k(3) have "js ! (k - 10) = j" by simp
      moreover have "k - 10 < length js" using k(1) ge ten(2) rest(2) by simp
      ultimately have "rs' ! (k - 10) = ?v" using rest(3) by blast
      then show ?thesis using ge ten(2) by (simp add: nth_append)
    qed
  qed
  then show ?thesis using run ten(2) rest(2) v by auto
qed

theorem constant_source_settles_witness:
  "\<exists>rs s'. averaged_reads quiet (replicate 10 0 @ [1, 0]) (setup_ino power_on) = Some (rs, s') \<and>
     length rs = 12 \<and> rs ! 9 = 0 \<and> rs ! 11 = 0"
proof -
  have "(\<exists>rs s'. averaged_reads quiet (replicate 10 0 @ [1, 0]) (setup_ino power_on) = Some (rs, s') \<and>
           length rs = 10 + length [1 :: u8, 0] \<and>
           (\<forall>k<length rs. 9 \<le> k \<longrightarrow> (replicate 10 0 @ [1 :: u8, 0]) ! k = 0 \<longrightarrow>
              rs ! k = scaled_mean (of_nat NB_ANALOG_RD * of_nat 0))) \<and>
        ((0::nat) \<le> 1023 \<longrightarrow>
           scaled_mean (of_nat NB_ANALOG_RD * of_nat 0) = of_nat (0 * 2410 div 1023))"
    by (rule constant_source_settles[where R = 0])
      (simp_all add: quiet_def setup_ino_closed)
  then obtain rs s' where
    a: "averaged_reads quiet (replicate 10 0 @ [1, 0]) (setup_ino power_on) = Some (rs, s')"
    and l: "length rs = 12"
    and v: "\<forall>k<length rs. 9 \<le> k \<longrightarrow> (replicate 10 0 @ [1 :: u8, 0]) ! k = 0 \<longrightarrow> rs ! k = 0"
    by auto
  have "rs ! 9 = 0" using v[rule_format, of 9] l by (simp add: nth_append)
  moreover have "rs ! 11 = 0" using v[rule_format, of 11] l by (simp add: nth_append)
  ultimately show ?thesis using a l by blast
qed

lemma scaled_mean_0: "scaled_mean 0 = 0"
  by (simp add: scaled_mean_def config_defs)

lemma getVoltage_quiet:
  assumes j: "j \<in> {0, 1, 2, 3}"
  shows "getVoltage quiet j s =
     (let s' = s\<lparr>gVoltageHist := (gVoltageHist s)
                   (unat j := (gVoltageHist s (unat j))(unat (gHistCounter s mod 10) := 0)),
                 gHistCounter := gHistCounter s + 1,
                 analog_reads := analog_reads s + NB_ANALOG_RD,
                 elapsed := elapsed s + NB_ANALOG_RD\<rparr>
      in Some (computeAvgVoltage (ucast j) s', s'))"
  using getVoltage_constant[OF j, of quiet 0 s]
  by (simp add: quiet_def scaled_mean_0)

lemma sum_ten_slots:
  "(\<Sum>k<(10::nat). f k) = f 0 + f 1 + f 2 + f 3 + f 4 + f 5 + f 6 + f 7 + f 8 + (f 9 :: u32)"
  by (simp add: numeral_eq_Suc add.assoc)

text \<open>
  C8 (as stated, refuted). The converter reads 0 on every input and every accumulator
  starts at 0, so the per-read pipeline gives 0 at every read. After \<open>setup\<close>, averaged
  reads of channels 0 and 1 in turn: the tenth averaged read of channel 0 reports 750, not
  0. The two channels share the counter, so channel 0 only ever writes the even slots of
  its row and the odd slots keep the seed 1500.
\<close>

theorem interleaved_reads_do_not_settle:
  "map_option (last \<circ> fst)
     (averaged_reads quiet [0, 1, 0, 1, 0, 1, 0, 1, 0, 1, 0, 1, 0, 1, 0, 1, 0, 1, 0]
        (setup_ino power_on)) = Some 750 \<and>
   adc quiet (channel_pin 0) = (\<lambda>n. 0) \<and>
   scaled_mean (of_nat NB_ANALOG_RD * 0) = 0"
  apply (simp add: getVoltage_quiet Let_def setup_ino_closed scaled_mean_0)
  apply (simp add: computeAvgVoltage_closed sum_ten_slots quiet_def)
  done

section \<open>The first reads after setup\<close>

lemma first_read_after_setup:
  assumes j: "j \<in> {0, 1, 2, 3}"
  shows "\<exists>s'. getVoltage e j (setup_ino s0) =
            Some ((gVoltageHist s' (unat j) 0 + 1500) div 2, s') \<and>
          gVoltageHist s' (unat j) 0 =
            scaled_mean (indeterminate e (analog_reads s0) +
              (\<Sum>k<NB_ANALOG_RD. word_of_int (adc e (channel_pin j) (analog_reads s0 + k))))"
proof -
  let ?s = "setup_ino s0"
  let ?v = "scaled_mean (indeterminate e (analog_reads s0) +
              (\<Sum>k<NB_ANALOG_RD. word_of_int (adc e (channel_pin j) (analog_reads s0 + k))))"
  let ?s' = "?s\<lparr>gVoltageHist := (gVoltageHist ?s)
                   (unat j := (gVoltageHist ?s (unat j))(unat (gHistCounter ?s mod 10) := ?v)),
                 gHistCounter := gHistCounter ?s + 1,
                 analog_reads := analog_reads ?s + NB_ANALOG_RD,
                 elapsed := elapsed ?s + NB_ANALOG_RD\<rparr>"
  have uj: "unat j < 4" using j by auto
  have c: "gHistCounter ?s = 0" and ar: "analog_reads ?s = analog_reads s0"
    by (simp_all add: setup_ino_closed)
  have h: "gVoltageHist ?s (unat j) 1 = 1500"
    using uj by (simp add: setup_ino_closed)
  have g: "getVoltage e j ?s = Some (computeAvgVoltage (ucast j) ?s', ?s')"
    unfolding getVoltage_closed[OF j] Let_def ar ..
  have c': "gHistCounter ?s' = 1" by (simp add: c)
  have h0: "gVoltageHist ?s' (unat j) 0 = ?v" by (simp add: c)
  have h1: "gVoltageHist ?s' (unat j) 1 = 1500" using h by (simp add: c)
  have "computeAvgVoltage (ucast j) ?s' = (?v + 1500) div 2"
    unfolding computeAvgVoltage_closed c' unat_channel[OF j]
    using h by (simp add: c)
  with g h0 show ?thesis by (metis (no_types, lifting))
qed

text \<open>
  C2 (the code at the claim's own input). On a board that has just run \<open>setup\<close>, with a
  converter that reads 0 and an accumulator that starts at 0, the first averaged read of
  channel 0 stores its scaled sample, 0, in slot 0 and returns 750, which is
  \<open>(0 + 1500) div 2\<close>: the average runs over slots 0 and 1, and slot 1 still holds the seed
  1500. (\<open>first_read_after_setup\<close> is the same fact for every channel, converter and
  accumulator.)
\<close>

theorem first_averaged_read_counts_seed:
  "map_option (\<lambda>p. (fst p, gVoltageHist (snd p) 0 0)) (getVoltage quiet 0 (setup_ino power_on))
     = Some (750, 0)"
  by (simp add: getVoltage_quiet Let_def computeAvgVoltage_closed setup_ino_closed)

text \<open>
  C3 (the code at an accumulator that does not start at 0). On a board that has just run
  \<open>setup\<close>, with a converter that reads 0 at every read and the local \<open>sum\<close> holding 204
  on entry, the averaged read of channel 0 stores the sample 2 in slot 0; the 204 samples
  summed from 0 give the sample 0.
\<close>

theorem accumulator_start_reaches_sample:
  "map_option (\<lambda>p. gVoltageHist (snd p) 0 0) (getVoltage quiet_dirty 0 (setup_ino power_on))
     = Some 2 \<and>
   scaled_mean (0 + (\<Sum>k<NB_ANALOG_RD. word_of_int (adc quiet_dirty A0 k))) = 0"
  by (simp add: getVoltage_closed Let_def quiet_dirty_def scaled_mean_def config_defs
      setup_ino_closed)

section \<open>The shared counter\<close>

lemma next_slot_differs:
  fixes c :: u32
  shows "unat ((c + 1) mod 10) \<noteq> unat (c mod 10)"
proof (cases "1 + c = 0")
  case True
  then have c: "c = - 1" by (simp add: add_eq_0_iff)
  show ?thesis unfolding c by (simp add: unat_mod unat_minus_one)
next
  case False
  then have "unat (c + 1) = Suc (unat c)" by (simp add: unatSuc add.commute)
  moreover have "Suc n mod 10 \<noteq> n mod 10" for n :: nat
    by (simp add: mod_Suc)
  ultimately show ?thesis by (simp add: unat_mod)
qed

text \<open>
  C4. The state has one counter. An averaged read of any channel \<open>j\<close> stores its sample in
  slot \<open>counter mod 10\<close> of that channel's row and adds 1 to the counter; the value it
  returns is decided by the test \<open>counter < 10\<close> on the counter so incremented. The next
  averaged read, of any channel \<open>j'\<close> (the same or another), therefore stores into the
  following slot of its own row, which is never the slot the first read used, and is
  tested against the counter plus 2.
\<close>

theorem one_counter_for_all_channels:
  assumes j: "j \<in> {0, 1, 2, 3}" and j': "j' \<in> {0, 1, 2, 3}"
  shows "\<exists>r s1 r' s2 v v'.
           getVoltage e j s = Some (r, s1) \<and> getVoltage e j' s1 = Some (r', s2) \<and>
           gHistCounter s1 = gHistCounter s + 1 \<and> gHistCounter s2 = gHistCounter s + 2 \<and>
           gVoltageHist s1 = (gVoltageHist s)
             (unat j := (gVoltageHist s (unat j))(unat (gHistCounter s mod 10) := v)) \<and>
           gVoltageHist s2 = (gVoltageHist s1)
             (unat j' := (gVoltageHist s1 (unat j'))(unat ((gHistCounter s + 1) mod 10) := v')) \<and>
           unat ((gHistCounter s + 1) mod 10) \<noteq> unat (gHistCounter s mod 10) \<and>
           r = (if gHistCounter s + 1 < 10
                then (\<Sum>k<Suc (unat (gHistCounter s + 1)). gVoltageHist s1 (unat j) k)
                       div (gHistCounter s + 1 + 1)
                else (\<Sum>k<10. gVoltageHist s1 (unat j) k) div 10) \<and>
           r' = (if gHistCounter s + 2 < 10
                 then (\<Sum>k<Suc (unat (gHistCounter s + 2)). gVoltageHist s2 (unat j') k)
                        div (gHistCounter s + 2 + 1)
                 else (\<Sum>k<10. gVoltageHist s2 (unat j') k) div 10)"
proof -
  obtain r s1 where 1: "getVoltage e j s = Some (r, s1)"
    and c1: "gHistCounter s1 = gHistCounter s + 1"
    and h1: "gVoltageHist s1 = (gVoltageHist s)
       (unat j := (gVoltageHist s (unat j))(unat (gHistCounter s mod 10) :=
          scaled_mean (indeterminate e (analog_reads s) +
            (\<Sum>k<NB_ANALOG_RD. word_of_int (adc e (channel_pin j) (analog_reads s + k))))))"
    and r: "r = computeAvgVoltage (ucast j) s1"
    unfolding getVoltage_closed[OF j] Let_def by simp
  obtain r' s2 where 2: "getVoltage e j' s1 = Some (r', s2)"
    and c2: "gHistCounter s2 = gHistCounter s1 + 1"
    and h2: "gVoltageHist s2 = (gVoltageHist s1)
       (unat j' := (gVoltageHist s1 (unat j'))(unat (gHistCounter s1 mod 10) :=
          scaled_mean (indeterminate e (analog_reads s1) +
            (\<Sum>k<NB_ANALOG_RD. word_of_int (adc e (channel_pin j') (analog_reads s1 + k))))))"
    and r': "r' = computeAvgVoltage (ucast j') s2"
    unfolding getVoltage_closed[OF j'] Let_def by simp
  have c2': "gHistCounter s2 = gHistCounter s + 2" by (simp add: c2 c1)
  have ra: "r = (if gHistCounter s + 1 < 10
                then (\<Sum>k<Suc (unat (gHistCounter s + 1)). gVoltageHist s1 (unat j) k)
                       div (gHistCounter s + 1 + 1)
                else (\<Sum>k<10. gVoltageHist s1 (unat j) k) div 10)"
    unfolding r computeAvgVoltage_closed c1 unat_channel[OF j] ..
  have rb: "r' = (if gHistCounter s + 2 < 10
                 then (\<Sum>k<Suc (unat (gHistCounter s + 2)). gVoltageHist s2 (unat j') k)
                        div (gHistCounter s + 2 + 1)
                 else (\<Sum>k<10. gVoltageHist s2 (unat j') k) div 10)"
    unfolding r' computeAvgVoltage_closed c2' unat_channel[OF j'] ..
  show ?thesis
    using 1 2 c1 c2' h1 h2[unfolded c1] next_slot_differs[of "gHistCounter s"] ra rb
    by blast
qed

lemma sum_three_slots: "(\<Sum>k<(3::nat). f k) = f 0 + f 1 + (f 2 :: u32)"
  by (simp add: numeral_eq_Suc add.assoc)

theorem one_counter_for_all_channels_witness:
  "\<exists>s1 s2. getVoltage quiet 0 (setup_ino power_on) = Some (750, s1) \<and>
     getVoltage quiet 1 s1 = Some (1000, s2) \<and> gHistCounter s1 = 1 \<and> gHistCounter s2 = 2 \<and>
     gVoltageHist s2 1 0 = 1500 \<and> gVoltageHist s2 1 1 = 0"
proof -
  have "\<exists>s1 s2. getVoltage quiet 0 (setup_ino power_on) = Some (750, s1) \<and>
     getVoltage quiet 1 s1 = Some (1000, s2) \<and> gHistCounter s1 = 1 \<and> gHistCounter s2 = 2 \<and>
     gVoltageHist s2 1 0 = 1500 \<and> gVoltageHist s2 1 1 = 0"
    by (simp add: getVoltage_quiet Let_def computeAvgVoltage_closed setup_ino_closed
        sum_three_slots)
  with one_counter_for_all_channels[of 0 1 quiet "setup_ino power_on"] show ?thesis by blast
qed

section \<open>The history stays in range\<close>

text \<open>
  \<open>setup\<close> seeds every slot with 1500 and \<open>getVoltage\<close> only stores scaled samples, so
  every slot stays at or below 4198404 whatever the converter and the accumulator give;
  the averages, means of at most ten such values, stay below \<open>2 ^ 24\<close> as well.
\<close>

lemma unat_sum_words:
  fixes f :: "nat \<Rightarrow> u32"
  shows "(\<Sum>k<n. unat (f k)) < 2 ^ 32 \<Longrightarrow> unat (\<Sum>k<n. f k) = (\<Sum>k<n. unat (f k))"
proof (induction n)
  case 0
  then show ?case by simp
next
  case (Suc n)
  then have "unat (\<Sum>k<n. f k) = (\<Sum>k<n. unat (f k))" by simp
  moreover from Suc.prems have "(\<Sum>k<n. unat (f k)) + unat (f n) < 2 ^ 32" by simp
  ultimately show ?case
    using unat_add_lem[of "\<Sum>k<n. f k" "f n"] by simp
qed

lemma mean_in_range:
  fixes f :: "nat \<Rightarrow> u32"
  assumes n: "0 < n" "n \<le> 10" and f: "\<forall>k<n. unat (f k) \<le> 4198404"
  shows "unat ((\<Sum>k<n. f k) div of_nat n) \<le> 4198404"
proof -
  have "(\<Sum>k<n. unat (f k)) \<le> (\<Sum>k<n. 4198404)"
    by (rule sum_mono) (use f in simp)
  then have le: "(\<Sum>k<n. unat (f k)) \<le> n * 4198404" by simp
  also have "\<dots> \<le> 10 * 4198404" using n by simp
  finally have "(\<Sum>k<n. unat (f k)) < 2 ^ 32" by simp
  then have s: "unat (\<Sum>k<n. f k) = (\<Sum>k<n. unat (f k))" by (rule unat_sum_words)
  have m: "unat (of_nat n :: u32) = n" using n by (simp add: unat_of_nat)
  have "unat ((\<Sum>k<n. f k) div of_nat n) = (\<Sum>k<n. unat (f k)) div n"
    by (simp add: unat_div s m)
  also have "\<dots> \<le> (n * 4198404) div n" using le by (rule div_le_mono)
  also have "\<dots> = 4198404" using n by simp
  finally show ?thesis .
qed

lemma computeAvgVoltage_in_range:
  assumes "hist_in_range s" and j: "unat j < 4"
  shows "unat (computeAvgVoltage j s) \<le> 4198404"
proof (cases "gHistCounter s < 10")
  case True
  let ?n = "unat (gHistCounter s)"
  from True have n: "?n < 10" by (simp add: word_less_nat_alt)
  have c: "gHistCounter s + 1 = of_nat (Suc ?n)" by simp
  have "unat ((\<Sum>k<Suc ?n. gVoltageHist s (unat j) k) div of_nat (Suc ?n)) \<le> 4198404"
    by (rule mean_in_range) (use assms n in \<open>auto simp: hist_in_range_def\<close>)
  then show ?thesis
    unfolding computeAvgVoltage_closed c using True by simp
next
  case False
  have "unat ((\<Sum>k<10. gVoltageHist s (unat j) k) div of_nat 10) \<le> 4198404"
    by (rule mean_in_range) (use assms in \<open>auto simp: hist_in_range_def\<close>)
  then show ?thesis
    unfolding computeAvgVoltage_closed using False by simp
qed

lemma setup_in_range: "hist_in_range (setup_ino s)"
  by (simp add: hist_in_range_def setup_ino_closed)

lemma getVoltage_in_range:
  assumes "hist_in_range s" and "getVoltage e j s = Some (r, s')"
  shows "hist_in_range s' \<and> unat r \<le> 4198404"
proof -
  have j: "j \<in> {0, 1, 2, 3}"
    using assms(2) getVoltage_None[of j e s] by fastforce
  then have uj: "unat j < 4" by auto
  let ?v = "scaled_mean (indeterminate e (analog_reads s) +
                (\<Sum>k<NB_ANALOG_RD. word_of_int (adc e (channel_pin j) (analog_reads s + k))))"
  from assms(2) have s': "gVoltageHist s' = (gVoltageHist s)
       (unat j := (gVoltageHist s (unat j))(unat (gHistCounter s mod 10) := ?v))"
    and r: "r = computeAvgVoltage (ucast j) s'"
    unfolding getVoltage_closed[OF j] Let_def by auto
  have in_range: "hist_in_range s'"
    using assms(1) scaled_mean_bound[of "indeterminate e (analog_reads s) +
                (\<Sum>k<NB_ANALOG_RD. word_of_int (adc e (channel_pin j) (analog_reads s + k)))"]
    by (auto simp: hist_in_range_def s')
  moreover have "unat (ucast j :: u32) < 4" using uj by (simp only: unat_channel[OF j])
  ultimately show ?thesis
    unfolding r using computeAvgVoltage_in_range by blast
qed


lemma send_reading_in_range:
  assumes "hist_in_range s" and "send_reading (getVoltage e j s) = Some c"
  shows "hist_in_range (ctl_state c)"
proof -
  from assms(2) obtain r s' where g: "getVoltage e j s = Some (r, s')"
    and c: "c = Break (sendUint r s')"
    by (auto simp: send_reading_def split: option.splits)
  from getVoltage_in_range[OF assms(1) g] show ?thesis
    by (simp add: c ctl_state_def hist_in_range_def serial_defs)
qed

lemma switch_in_in_range:
  assumes r: "hist_in_range s" and c: "switch_in e inb s = Some c"
  shows "hist_in_range (ctl_state c)"
proof (cases "inb \<in> set averaged_read_opcodes")
  case True
  then consider "inb = READ_V" | "inb = READ_V1" | "inb = READ_V2" | "inb = READ_V3"
    by (auto simp: averaged_read_opcodes_def)
  then show ?thesis
  proof cases
    case 1
    with c have "send_reading (getVoltage e 0 s) = Some c"
      by (simp add: switch_in_def opcode_defs)
    with r show ?thesis by (rule send_reading_in_range)
  next
    case 2
    with c have "send_reading (getVoltage e 1 s) = Some c"
      by (simp add: switch_in_def opcode_defs)
    with r show ?thesis by (rule send_reading_in_range)
  next
    case 3
    with c have "send_reading (getVoltage e 2 s) = Some c"
      by (simp add: switch_in_def opcode_defs)
    with r show ?thesis by (rule send_reading_in_range)
  next
    case 4
    with c have "send_reading (getVoltage e 3 s) = Some c"
      by (simp add: switch_in_def opcode_defs)
    with r show ?thesis by (rule send_reading_in_range)
  qed
next
  case False
  from switch_in_frame[OF False, where e = e and s = s] c r show ?thesis
    by (simp add: hist_in_range_def)
qed

lemma loop_in_range:
  assumes "hist_in_range s" and "loop e s = Some s'"
  shows "hist_in_range s'"
proof (cases "serial_rx s = []")
  case True
  with assms show ?thesis by (simp add: loop_def Serial_available_def)
next
  case False
  let ?s0 = "s\<lparr>serial_rx := tl (serial_rx s)\<rparr>"
  have r0: "hist_in_range ?s0" using assms(1) by (simp add: hist_in_range_def)
  from assms(2) False obtain c where c: "switch_in e (hd (serial_rx s)) ?s0 = Some c"
    and s': "s' = ctl_state c \<or> s' = Serial_write STOP_BYTE (ctl_state c)"
    by (auto simp: loop_def Serial_available_def Serial_read_def ctl_state_def
        split: option.splits ctl.splits)
  from switch_in_in_range[OF r0 c] s' show ?thesis
    by (auto simp: hist_in_range_def Serial_write_def)
qed

end
